theory Spec2Isabelle
  imports Complex_Main "HOL-Library.AList"
begin

section \<open>The centroid tracker of src/track/facetracker.py\<close>

text \<open>
  The class \<^verbatim>\<open>FaceTracker\<close> keeps two ordered dictionaries keyed by object id and a
  counter for the next id. An \<^verbatim>\<open>OrderedDict\<close> is modelled as an association list in
  insertion order: \<open>map_of d k\<close> is \<^verbatim>\<open>d[k]\<close>, \<open>AList.update k v d\<close> is
  \<^verbatim>\<open>d[k] = v\<close> (an existing key keeps its place, a new key goes to the end) and
  \<open>AList.delete k d\<close> is \<^verbatim>\<open>del d[k]\<close>, which raises \<^verbatim>\<open>KeyError\<close> on a missing
  key. Python integers are \<open>int\<close>. An exception leaves the object as mutated so far, so
  an error result carries the tracker at the moment of the raise.
\<close>

type_synonym centroid = "int \<times> int"
type_synonym rect = "int \<times> int \<times> int \<times> int"

datatype error = RuntimeError | KeyError

record tracker =
  nextObjectID :: int
  objectsTracked :: "(int \<times> centroid) list"
  disappeared :: "(int \<times> int) list"
  maxDisappeared :: int

type_synonym result = "(error \<times> tracker) + tracker"

text \<open>\<^verbatim>\<open>__init__(self, maxDisappeared = 13)\<close>\<close>

definition FaceTracker :: "int \<Rightarrow> tracker" where
  "FaceTracker m =
     \<lparr>nextObjectID = 1, objectsTracked = [], disappeared = [], maxDisappeared = m\<rparr>"

definition register :: "tracker \<Rightarrow> centroid \<Rightarrow> tracker" where
  "register s c =
     s\<lparr>objectsTracked := AList.update (nextObjectID s) c (objectsTracked s),
       disappeared := AList.update (nextObjectID s) 0 (disappeared s),
       nextObjectID := nextObjectID s + 1\<rparr>"

definition deregister :: "tracker \<Rightarrow> int \<Rightarrow> result" where
  "deregister s objectID =
     (if map_of (objectsTracked s) objectID = None then Inl (KeyError, s)
      else
        let s1 = s\<lparr>objectsTracked := AList.delete objectID (objectsTracked s)\<rparr>
        in if map_of (disappeared s1) objectID = None then Inl (KeyError, s1)
           else Inr (s1\<lparr>disappeared := AList.delete objectID (disappeared s1)\<rparr>))"

subsection \<open>No detections: the loop over the live key view\<close>

text \<open>
  \<^verbatim>\<open>for objectID in self.disappeared.keys():\<close> iterates the dictionary itself, not a
  copy. Adding one to an existing entry does not disturb the iterator; deleting an entry
  does. The iterator of \<^verbatim>\<open>OrderedDict\<close> first looks whether any key is left and only
  then whether the dictionary was mutated: after a deletion the loop ends normally when
  the deleted key was the last one, and raises
  \<^verbatim>\<open>RuntimeError: OrderedDict mutated during iteration\<close> otherwise. The second argument
  is the list of keys still to be visited.
\<close>

fun mark_loop :: "tracker \<Rightarrow> int list \<Rightarrow> result" where
  "mark_loop s [] = Inr s"
| "mark_loop s (objectID # rest) =
     (case map_of (disappeared s) objectID of
        None \<Rightarrow> Inl (KeyError, s)
      | Some m \<Rightarrow>
          let s1 = s\<lparr>disappeared := AList.update objectID (m + 1) (disappeared s)\<rparr>
          in if m + 1 > maxDisappeared s1 then
               (case deregister s1 objectID of
                  Inl e \<Rightarrow> Inl e
                | Inr s2 \<Rightarrow> if rest = [] then Inr s2 else Inl (RuntimeError, s2))
             else mark_loop s1 rest)"

subsection \<open>Centroids and distances\<close>

text \<open>
  \<^verbatim>\<open>int((beginX + endX) / 2)\<close>: true division, then truncation toward zero. The
  coordinates are the integers the caller supplies (src/tracking.py passes
  \<^verbatim>\<open>box.astype('int')\<close>); for pixel coordinates the quotient is exact in double
  precision, so the result is the integer quotient truncated toward zero.
\<close>

definition int_half :: "int \<Rightarrow> int" where
  "int_half x = (if 0 \<le> x then x div 2 else - ((- x) div 2))"

fun centroid_of :: "rect \<Rightarrow> centroid" where
  "centroid_of (beginX, beginY, endX, endY) =
     (int_half (beginX + endX), int_half (beginY + endY))"

text \<open>
  \<^verbatim>\<open>distance.cdist(..., 'euclidean')\<close> is used only through \<^verbatim>\<open>min\<close>, \<^verbatim>\<open>argmin\<close> and
  \<^verbatim>\<open>argsort\<close>, that is through comparisons of its entries. The square root is strictly
  increasing, so the matrix holds the squared distance, an exact integer that orders the
  entries the same way (for pixel coordinates the rounded square roots of different
  integers differ).
\<close>

fun euclidean :: "centroid \<Rightarrow> centroid \<Rightarrow> int" where
  "euclidean (x1, y1) (x2, y2) = (x1 - x2) * (x1 - x2) + (y1 - y2) * (y1 - y2)"

definition cdist :: "centroid list \<Rightarrow> centroid list \<Rightarrow> int list list" where
  "cdist XA XB = map (\<lambda>a. map (euclidean a) XB) XA"

text \<open>
  \<^verbatim>\<open>argmin\<close> returns the first index of the minimum. \<^verbatim>\<open>argsort\<close> returns the indices
  ordered by value; among equal values the model keeps the index order, which is what
  numpy's insertion sort of a short array gives. Only the sortedness of the result and
  that it is a permutation of the indices are used below, except where a concrete frame
  is evaluated.
\<close>

fun index_of :: "'a \<Rightarrow> 'a list \<Rightarrow> nat" where
  "index_of v [] = 0"
| "index_of v (x # xs) = (if x = v then 0 else Suc (index_of v xs))"

definition argmin :: "int list \<Rightarrow> nat" where
  "argmin xs = index_of (min_list xs) xs"

definition argsort :: "int list \<Rightarrow> nat list" where
  "argsort xs = sort_key (\<lambda>i. xs ! i) [0..<length xs]"

subsection \<open>The matching pass and the two follow-up loops\<close>

text \<open>The body of \<^verbatim>\<open>for row, col in zip(rows, cols)\<close>, lines 105 to 121.\<close>

fun match_loop ::
  "tracker \<Rightarrow> int list \<Rightarrow> centroid list \<Rightarrow> (nat \<times> nat) list \<Rightarrow> nat set \<Rightarrow> nat set
     \<Rightarrow> tracker \<times> nat set \<times> nat set" where
  "match_loop s objectIDs inputCentroid [] usedRows usedCols = (s, usedRows, usedCols)"
| "match_loop s objectIDs inputCentroid ((row, col) # ps) usedRows usedCols =
     (if row \<in> usedRows \<or> col \<in> usedCols
      then match_loop s objectIDs inputCentroid ps usedRows usedCols
      else
        let objectID = objectIDs ! row;
            s1 = s\<lparr>objectsTracked :=
                     AList.update objectID (inputCentroid ! col) (objectsTracked s),
                   disappeared := AList.update objectID 0 (disappeared s)\<rparr>
        in match_loop s1 objectIDs inputCentroid ps (insert row usedRows) (insert col usedCols))"

text \<open>
  Lines 95 to 121: the row order, the column of each row, and the walk over the pairs.
  The result is the tracker after the walk with the consumed rows and columns.
\<close>

definition matching_rows :: "int list list \<Rightarrow> nat list" where
  "matching_rows objDist = argsort (map min_list objDist)"

definition matching_cols :: "int list list \<Rightarrow> nat list" where
  "matching_cols objDist = map (\<lambda>r. argmin (objDist ! r)) (matching_rows objDist)"

definition matching_pass :: "tracker \<Rightarrow> centroid list \<Rightarrow> tracker \<times> nat set \<times> nat set" where
  "matching_pass s inputCentroid =
     (let objectIDs = map fst (objectsTracked s);
          objectsCentroid = map snd (objectsTracked s);
          objDist = cdist objectsCentroid inputCentroid
      in match_loop s objectIDs inputCentroid
           (zip (matching_rows objDist) (matching_cols objDist)) {} {})"

text \<open>
  Lines 132 to 140, \<^verbatim>\<open>for row in unusedRows\<close>. The loop runs over a set of indices,
  not over the dictionary, so deregistering inside it is harmless.
\<close>

fun disappear_loop :: "tracker \<Rightarrow> int list \<Rightarrow> nat list \<Rightarrow> result" where
  "disappear_loop s objectIDs [] = Inr s"
| "disappear_loop s objectIDs (row # rest) =
     (let objectID = objectIDs ! row
      in case map_of (disappeared s) objectID of
           None \<Rightarrow> Inl (KeyError, s)
         | Some m \<Rightarrow>
             let s1 = s\<lparr>disappeared := AList.update objectID (m + 1) (disappeared s)\<rparr>
             in if m + 1 > maxDisappeared s1 then
                  (case deregister s1 objectID of
                     Inl e \<Rightarrow> Inl e
                   | Inr s2 \<Rightarrow> disappear_loop s2 objectIDs rest)
                else disappear_loop s1 objectIDs rest)"

text \<open>
  \<^verbatim>\<open>update(self, rect)\<close>. The value returned to the caller is \<open>objectsTracked\<close> of the
  resulting tracker. The index sets \<^verbatim>\<open>unusedRows\<close> and \<^verbatim>\<open>unusedCols\<close> are enumerated in
  ascending order. The order of \<^verbatim>\<open>unusedRows\<close> does not change the result (the rows are
  different objects). The order of \<^verbatim>\<open>unusedCols\<close> decides which new id a detection gets;
  Python iterates a set of indices below 8 in ascending order, and no property below
  depends on that order.
\<close>

definition update :: "tracker \<Rightarrow> rect list \<Rightarrow> result" where
  "update s rect =
     (if rect = [] then mark_loop s (map fst (disappeared s))
      else
        let inputCentroid = map centroid_of rect
        in if length (objectsTracked s) = 0 then Inr (foldl register s inputCentroid)
           else
             let objectIDs = map fst (objectsTracked s);
                 nrows = length (objectsTracked s);
                 ncols = length inputCentroid
             in if nrows * ncols > 0 then
                  (case matching_pass s inputCentroid of
                     (s1, usedRows, usedCols) \<Rightarrow>
                       let unusedRows = filter (\<lambda>r. r \<notin> usedRows) [0..<nrows];
                           unusedCols = filter (\<lambda>c. c \<notin> usedCols) [0..<ncols]
                       in if nrows \<ge> ncols then disappear_loop s1 objectIDs unusedRows
                          else Inr (foldl register s1 (map (\<lambda>c. inputCentroid ! c) unusedCols)))
                else Inr s)"

text \<open>
  The frame loop of src/tracking.py calls \<^verbatim>\<open>ft.update(rect)\<close> once per frame on the same
  tracker; an exception ends it.
\<close>

fun run :: "tracker \<Rightarrow> rect list list \<Rightarrow> result" where
  "run s [] = Inr s"
| "run s (rect # frames) =
     (case update s rect of Inl e \<Rightarrow> Inl e | Inr s' \<Rightarrow> run s' frames)"

subsection \<open>The state invariant\<close>

text \<open>
  What holds of every tracker the code can reach: the two dictionaries have the same keys
  in the same order (entries are created, and destroyed, together), a key occurs once (a
  dictionary), and every id in use is below \<open>nextObjectID\<close>.
\<close>

definition tracker_inv :: "tracker \<Rightarrow> bool" where
  "tracker_inv s \<longleftrightarrow>
     map fst (objectsTracked s) = map fst (disappeared s) \<and>
     distinct (map fst (objectsTracked s)) \<and>
     (\<forall>k \<in> set (map fst (objectsTracked s)). k < nextObjectID s)"

subsection \<open>Vocabulary for the effect of one call on one object\<close>

text \<open>
  Lines 136 to 140 applied to the object \<open>k\<close> whose counter is \<open>m\<close>: the counter becomes
  \<open>m + 1\<close>, and the object is deregistered when that exceeds \<open>maxDisappeared\<close>.
\<close>

definition bump :: "tracker \<Rightarrow> int \<Rightarrow> int \<Rightarrow> tracker" where
  "bump s k m =
     (if m + 1 > maxDisappeared s
      then s\<lparr>objectsTracked := AList.delete k (objectsTracked s),
             disappeared := AList.delete k (disappeared s)\<rparr>
      else s\<lparr>disappeared := AList.update k (m + 1) (disappeared s)\<rparr>)"

text \<open>
  Between \<open>s\<close> and \<open>s'\<close> the object \<open>k\<close> was counted as missed once: with the counter \<open>m\<close>
  before, it is gone from both dictionaries if \<open>m + 1\<close> exceeds \<open>maxDisappeared\<close>, and
  otherwise has its old centroid and the counter \<open>m + 1\<close>.
\<close>

definition bumped :: "tracker \<Rightarrow> tracker \<Rightarrow> int \<Rightarrow> bool" where
  "bumped s s' k \<longleftrightarrow>
     (case map_of (disappeared s) k of
        None \<Rightarrow> False
      | Some m \<Rightarrow>
          if m + 1 > maxDisappeared s
          then map_of (objectsTracked s') k = None \<and> map_of (disappeared s') k = None
          else map_of (objectsTracked s') k = map_of (objectsTracked s) k \<and>
               map_of (disappeared s') k = Some (m + 1))"

text \<open>The object \<open>k\<close> has the same centroid and the same counter in \<open>s\<close> and \<open>s'\<close>.\<close>

definition untouched :: "tracker \<Rightarrow> tracker \<Rightarrow> int \<Rightarrow> bool" where
  "untouched s s' k \<longleftrightarrow>
     map_of (objectsTracked s') k = map_of (objectsTracked s) k \<and>
     map_of (disappeared s') k = map_of (disappeared s) k"

text \<open>In \<open>s'\<close> the object \<open>k\<close> is at the centroid \<open>c\<close> with counter 0.\<close>

definition matched_to :: "tracker \<Rightarrow> centroid \<Rightarrow> int \<Rightarrow> bool" where
  "matched_to s' c k \<longleftrightarrow>
     map_of (objectsTracked s') k = Some c \<and> map_of (disappeared s') k = Some 0"

text \<open>
  From \<open>s\<close> to \<open>s'\<close> no id was issued and no key was added: the configuration is the same,
  the dictionaries still agree, and the keys of \<open>s'\<close> are among those of \<open>s\<close>.
\<close>

definition shrinks :: "tracker \<Rightarrow> tracker \<Rightarrow> bool" where
  "shrinks s s' \<longleftrightarrow>
     nextObjectID s' = nextObjectID s \<and> maxDisappeared s' = maxDisappeared s \<and>
     map fst (disappeared s') = map fst (objectsTracked s') \<and>
     set (map fst (objectsTracked s')) \<subseteq> set (map fst (objectsTracked s)) \<and>
     (distinct (map fst (objectsTracked s)) \<longrightarrow> distinct (map fst (objectsTracked s')))"

text \<open>
  The tracker object after a call or a sequence of calls, whether it returned or raised.
\<close>

definition tracker_after :: "result \<Rightarrow> tracker" where
  "tracker_after r = (case r of Inl (e, s) \<Rightarrow> s | Inr s \<Rightarrow> s)"

text \<open>
  Ids only grow: the invariant holds afterwards, \<open>nextObjectID\<close> did not go down, and an id
  that is tracked afterwards was tracked before or is at least the old \<open>nextObjectID\<close>.
\<close>

definition advances :: "tracker \<Rightarrow> tracker \<Rightarrow> bool" where
  "advances s s' \<longleftrightarrow>
     tracker_inv s' \<and> nextObjectID s \<le> nextObjectID s' \<and>
     (\<forall>k \<in> set (map fst (objectsTracked s')).
        k \<in> set (map fst (objectsTracked s)) \<or> nextObjectID s \<le> k)"


subsection \<open>The specification's wording, for comparison with the code\<close>



subsection \<open>Trackers and frames used as examples\<close>

text \<open>
  A tracker with the default limit after one frame with the boxes (0, 0, 2, 2) and
  (10, 10, 12, 12).
\<close>

definition two_tracked :: tracker where
  "two_tracked =
     \<lparr>nextObjectID = 3, objectsTracked = [(1, (1, 1)), (2, (11, 11))],
      disappeared = [(1, 0), (2, 0)], maxDisappeared = 13\<rparr>"


text \<open>A frame with three detections, the first at the place of object 1.\<close>

definition three_detections :: "rect list" where
  "three_detections = [(0, 0, 2, 2), (100, 100, 102, 102), (200, 200, 202, 202)]"

section \<open>Properties of the dictionary operations and of the loops\<close>

lemma update_fresh: "k \<notin> fst ` set al \<Longrightarrow> AList.update k v al = al @ [(k, v)]"
  by (induction al) auto

lemma register_fields [simp]:
  "nextObjectID (register s c) = nextObjectID s + 1"
  "maxDisappeared (register s c) = maxDisappeared s"
  by (simp_all add: register_def)

lemma register_inv:
  assumes "tracker_inv s"
  shows "objectsTracked (register s c) = objectsTracked s @ [(nextObjectID s, c)]"
    and "disappeared (register s c) = disappeared s @ [(nextObjectID s, 0)]"
    and "tracker_inv (register s c)"
proof -
  have k1: "map fst (objectsTracked s) = map fst (disappeared s)"
    and k2: "distinct (map fst (objectsTracked s))"
    and k3: "\<forall>k \<in> set (map fst (objectsTracked s)). k < nextObjectID s"
    using assms unfolding tracker_inv_def by blast+
  have f1: "nextObjectID s \<notin> set (map fst (objectsTracked s))"
    using k3 by auto
  have f2: "nextObjectID s \<notin> set (map fst (disappeared s))"
    using f1 k1 by simp
  show a: "objectsTracked (register s c) = objectsTracked s @ [(nextObjectID s, c)]"
    using f1 by (simp add: register_def update_fresh)
  show b: "disappeared (register s c) = disappeared s @ [(nextObjectID s, 0)]"
    using f2 by (simp add: register_def update_fresh)
  show "tracker_inv (register s c)"
    unfolding tracker_inv_def a b
  proof (intro conjI)
    show "map fst (objectsTracked s @ [(nextObjectID s, c)]) =
          map fst (disappeared s @ [(nextObjectID s, 0)])"
      using k1 by simp
    show "distinct (map fst (objectsTracked s @ [(nextObjectID s, c)]))"
      using k2 f1 by simp
    show "\<forall>k \<in> set (map fst (objectsTracked s @ [(nextObjectID s, c)])).
            k < nextObjectID (register s c)"
      using k3 by auto
  qed
qed

lemma foldl_register_fields [simp]:
  "nextObjectID (foldl register s cs) = nextObjectID s + int (length cs)"
  "maxDisappeared (foldl register s cs) = maxDisappeared s"
  by (induction cs arbitrary: s) simp_all

lemma foldl_register_inv:
  assumes "tracker_inv s"
  shows "tracker_inv (foldl register s cs) \<and>
         objectsTracked (foldl register s cs) =
           objectsTracked s @ map (\<lambda>i. (nextObjectID s + int i, cs ! i)) [0..<length cs] \<and>
         disappeared (foldl register s cs) =
           disappeared s @ map (\<lambda>i. (nextObjectID s + int i, 0)) [0..<length cs]"
proof (induction cs rule: rev_induct)
  case Nil
  show ?case using assms by simp
next
  case (snoc c cs)
  let ?t = "foldl register s cs"
  have inv: "tracker_inv ?t" using snoc by simp
  have m: "map (\<lambda>i. (nextObjectID s + int i, (cs @ [c]) ! i)) [0..<length cs] =
           map (\<lambda>i. (nextObjectID s + int i, cs ! i)) [0..<length cs]"
    by (simp add: nth_append)
  show ?case
    using snoc register_inv [OF inv, of c] by (simp add: m)
qed

lemma tracker_invD:
  assumes "tracker_inv s"
  shows "map fst (disappeared s) = map fst (objectsTracked s)"
    and "distinct (map fst (objectsTracked s))"
    and "\<And>k. k \<in> set (map fst (objectsTracked s)) \<Longrightarrow> k < nextObjectID s"
  using assms unfolding tracker_inv_def by (simp, blast, blast)

lemma map_of_in_keys: "map_of al k \<noteq> None \<longleftrightarrow> k \<in> set (map fst al)"
  by (simp add: map_of_eq_None_iff)

lemma dom_delete: "fst ` set (AList.delete k al) = fst ` set al - {k}"
  by (metis delete_keys set_removeAll list.set_map)

lemma bump_fields [simp]:
  "nextObjectID (bump s k m) = nextObjectID s"
  "maxDisappeared (bump s k m) = maxDisappeared s"
  by (simp_all add: bump_def)

lemma bump_keys:
  assumes "map fst (disappeared s) = map fst (objectsTracked s)"
    and "k \<in> set (map fst (objectsTracked s))"
  shows "map fst (disappeared (bump s k m)) = map fst (objectsTracked (bump s k m))"
    and "set (map fst (objectsTracked (bump s k m))) \<subseteq> set (map fst (objectsTracked s))"
    and "distinct (map fst (objectsTracked s)) \<Longrightarrow> distinct (map fst (objectsTracked (bump s k m)))"
    and "k' \<noteq> k \<Longrightarrow> k' \<in> set (map fst (objectsTracked s)) \<Longrightarrow>
           k' \<in> set (map fst (objectsTracked (bump s k m)))"
proof -
  have kd: "k \<in> fst ` set (disappeared s)"
    using assms by (metis list.set_map)
  show "map fst (disappeared (bump s k m)) = map fst (objectsTracked (bump s k m))"
    using assms kd by (simp add: bump_def delete_keys update_keys)
  have "set (map fst (AList.delete k (objectsTracked s))) \<subseteq> set (map fst (objectsTracked s))"
    by (simp add: delete_keys)
  then show "set (map fst (objectsTracked (bump s k m))) \<subseteq> set (map fst (objectsTracked s))"
    by (cases "m + 1 > maxDisappeared s") (simp_all add: bump_def del: set_map)
  show "distinct (map fst (objectsTracked s)) \<Longrightarrow> distinct (map fst (objectsTracked (bump s k m)))"
    by (simp add: bump_def distinct_delete)
  show "k' \<noteq> k \<Longrightarrow> k' \<in> set (map fst (objectsTracked s)) \<Longrightarrow>
           k' \<in> set (map fst (objectsTracked (bump s k m)))"
    by (simp add: bump_def dom_delete)
qed

lemma bump_lookup_other:
  "k' \<noteq> k \<Longrightarrow> map_of (objectsTracked (bump s k m)) k' = map_of (objectsTracked s) k'"
  "k' \<noteq> k \<Longrightarrow> map_of (disappeared (bump s k m)) k' = map_of (disappeared s) k'"
  by (simp_all add: bump_def update_conv' delete_conv')

lemma bump_lookup_same:
  "map_of (objectsTracked (bump s k m)) k =
     (if m + 1 > maxDisappeared s then None else map_of (objectsTracked s) k)"
  "map_of (disappeared (bump s k m)) k =
     (if m + 1 > maxDisappeared s then None else Some (m + 1))"
  by (simp_all add: bump_def update_conv' delete_conv')

lemma bump_step:
  assumes "map fst (disappeared s) = map fst (objectsTracked s)"
    and "map_of (disappeared s) k = Some m"
  shows "(let s1 = s\<lparr>disappeared := AList.update k (m + 1) (disappeared s)\<rparr>
          in if m + 1 > maxDisappeared s1 then deregister s1 k else Inr s1) = Inr (bump s k m)"
proof -
  have "k \<in> set (map fst (disappeared s))"
    using assms(2) by (metis map_of_in_keys option.distinct(1))
  then have "map_of (objectsTracked s) k \<noteq> None"
    using assms(1) by (metis map_of_in_keys)
  then show ?thesis
    by (auto simp: Let_def bump_def deregister_def update_conv' delete_update_same)
qed

lemma shrinks_refl: "map fst (disappeared s) = map fst (objectsTracked s) \<Longrightarrow> shrinks s s"
  by (simp add: shrinks_def)

lemma shrinks_trans: "shrinks s t \<Longrightarrow> shrinks t u \<Longrightarrow> shrinks s u"
  unfolding shrinks_def by (intro conjI; (simp; fail | blast))

lemma shrinks_bump:
  assumes "map fst (disappeared s) = map fst (objectsTracked s)"
    and "k \<in> set (map fst (objectsTracked s))"
  shows "shrinks s (bump s k m)"
  unfolding shrinks_def using bump_keys [OF assms, of m] by simp

lemma untouched_bump: "k' \<noteq> k \<Longrightarrow> untouched s (bump s k m) k'"
  by (simp add: untouched_def bump_lookup_other)

lemma bumped_bump: "map_of (disappeared s) k = Some m \<Longrightarrow> bumped s (bump s k m) k"
  by (simp add: bumped_def bump_lookup_same)

lemma untouched_trans: "untouched s t k \<Longrightarrow> untouched t u k \<Longrightarrow> untouched s u k"
  by (simp add: untouched_def)

lemma bumped_untouched:
  "bumped s t k \<Longrightarrow> untouched t u k \<Longrightarrow> bumped s u k"
  unfolding untouched_def bumped_def
  by (cases "map_of (disappeared s) k") (simp_all split: if_splits)

lemma untouched_bumped:
  "untouched s t k \<Longrightarrow> maxDisappeared t = maxDisappeared s \<Longrightarrow> bumped t u k \<Longrightarrow> bumped s u k"
  unfolding untouched_def bumped_def
  by (cases "map_of (disappeared s) k") (simp_all split: if_splits)

lemma disappear_loop_Cons:
  assumes "map fst (disappeared s) = map fst (objectsTracked s)"
    and "map_of (disappeared s) (objectIDs ! row) = Some m"
  shows "disappear_loop s objectIDs (row # rest) =
           disappear_loop (bump s (objectIDs ! row) m) objectIDs rest"
  using bump_step [OF assms] assms(2) by (auto simp: Let_def split: if_splits)

lemma mark_loop_Cons:
  assumes "map fst (disappeared s) = map fst (objectsTracked s)"
    and "map_of (disappeared s) k = Some m"
  shows "mark_loop s (k # rest) =
           (if m + 1 > maxDisappeared s
            then (if rest = [] then Inr (bump s k m) else Inl (RuntimeError, bump s k m))
            else mark_loop (bump s k m) rest)"
  using bump_step [OF assms] assms(2) by (auto simp: Let_def split: if_splits)

lemma key_has_counter:
  assumes "map fst (disappeared s) = map fst (objectsTracked s)"
    and "k \<in> set (map fst (objectsTracked s))"
  shows "\<exists>m. map_of (disappeared s) k = Some m"
  using assms by (metis map_of_in_keys not_Some_eq)

lemma bump_compose:
  assumes m: "map_of (disappeared s) k0 = Some m"
    and fresh: "k0 \<notin> B"
    and pk: "\<forall>k. if k \<in> B then bumped (bump s k0 m) s' k else untouched (bump s k0 m) s' k"
  shows "\<forall>k. if k \<in> insert k0 B then bumped s s' k else untouched s s' k"
proof
  fix k
  let ?t = "bump s k0 m"
  show "if k \<in> insert k0 B then bumped s s' k else untouched s s' k"
  proof (cases "k = k0")
    case True
    then have "untouched ?t s' k" using pk fresh by metis
    then show ?thesis using True bumped_untouched [OF bumped_bump [OF m]] by simp
  next
    case False
    then have u: "untouched s ?t k" by (simp add: untouched_bump)
    show ?thesis
    proof (cases "k \<in> B")
      case True
      then have "bumped ?t s' k" using pk by metis
      then have "bumped s s' k" using untouched_bumped [OF u] by simp
      then show ?thesis using True by simp
    next
      case False
      then have "untouched ?t s' k" using pk by metis
      then show ?thesis using False \<open>k \<noteq> k0\<close> untouched_trans [OF u] by simp
    qed
  qed
qed

lemma disappear_loop_result:
  assumes "map fst (disappeared s) = map fst (objectsTracked s)"
    and "distinct (map ((!) objectIDs) rs)"
    and "\<forall>r \<in> set rs. objectIDs ! r \<in> set (map fst (objectsTracked s))"
  shows "\<exists>s'. disappear_loop s objectIDs rs = Inr s' \<and> shrinks s s' \<and>
           (\<forall>k. if k \<in> (!) objectIDs ` set rs then bumped s s' k else untouched s s' k)"
  using assms
proof (induction rs arbitrary: s)
  case Nil
  then show ?case by (simp add: shrinks_refl untouched_def)
next
  case (Cons r rs)
  let ?k = "objectIDs ! r"
  have kin: "?k \<in> set (map fst (objectsTracked s))" using Cons.prems(3) by simp
  obtain m where m: "map_of (disappeared s) ?k = Some m"
    using key_has_counter [OF Cons.prems(1) kin] by blast
  let ?t = "bump s ?k m"
  have fresh: "?k \<notin> (!) objectIDs ` set rs" using Cons.prems(2) by auto
  have t1: "map fst (disappeared ?t) = map fst (objectsTracked ?t)"
    by (rule bump_keys(1) [OF Cons.prems(1) kin])
  have t2: "distinct (map ((!) objectIDs) rs)" using Cons.prems(2) by simp
  have t3: "\<forall>r' \<in> set rs. objectIDs ! r' \<in> set (map fst (objectsTracked ?t))"
  proof
    fix r' assume r': "r' \<in> set rs"
    then have "objectIDs ! r' \<noteq> ?k" using fresh by (metis imageI)
    moreover have "objectIDs ! r' \<in> set (map fst (objectsTracked s))"
      using Cons.prems(3) r' by simp
    ultimately show "objectIDs ! r' \<in> set (map fst (objectsTracked ?t))"
      by (rule bump_keys(4) [OF Cons.prems(1) kin])
  qed
  obtain s' where s': "disappear_loop ?t objectIDs rs = Inr s'" "shrinks ?t s'"
    and pk: "\<forall>k. if k \<in> (!) objectIDs ` set rs then bumped ?t s' k else untouched ?t s' k"
    using Cons.IH [OF t1 t2 t3] by blast
  have run: "disappear_loop s objectIDs (r # rs) = Inr s'"
    using disappear_loop_Cons [OF Cons.prems(1) m] s'(1) by simp
  have sh: "shrinks s s'"
    using shrinks_trans [OF shrinks_bump [OF Cons.prems(1) kin] s'(2)] .
  have "\<forall>k. if k \<in> (!) objectIDs ` set (r # rs) then bumped s s' k else untouched s s' k"
    using bump_compose [OF m fresh pk] by simp
  then show ?case using run sh by blast
qed

lemma mark_loop_result:
  assumes "map fst (disappeared s) = map fst (objectsTracked s)"
    and "distinct ks"
    and "set ks \<subseteq> set (map fst (objectsTracked s))"
  shows "(\<exists>s'. mark_loop s ks = Inr s' \<and> shrinks s s' \<and>
            (\<forall>k. if k \<in> set ks then bumped s s' k else untouched s s' k)) \<or>
         (\<exists>s'. mark_loop s ks = Inl (RuntimeError, s') \<and> shrinks s s')"
  using assms
proof (induction ks arbitrary: s)
  case Nil
  then show ?case by (simp add: shrinks_refl untouched_def)
next
  case (Cons k ks)
  have kin: "k \<in> set (map fst (objectsTracked s))" using Cons.prems(3) by simp
  obtain m where m: "map_of (disappeared s) k = Some m"
    using key_has_counter [OF Cons.prems(1) kin] by blast
  let ?t = "bump s k m"
  have sb: "shrinks s ?t" by (rule shrinks_bump [OF Cons.prems(1) kin])
  have fresh: "k \<notin> set ks" using Cons.prems(2) by simp
  show ?case
  proof (cases "m + 1 > maxDisappeared s")
    case True
    show ?thesis
    proof (cases "ks = []")
      case True
      have "mark_loop s (k # ks) = Inr ?t"
        using mark_loop_Cons [OF Cons.prems(1) m] \<open>m + 1 > maxDisappeared s\<close> True by simp
      moreover have "\<forall>k'. if k' \<in> set (k # ks) then bumped s ?t k' else untouched s ?t k'"
        using True bumped_bump [OF m] untouched_bump [of _ k s m] by simp
      ultimately show ?thesis using sb by blast
    next
      case False
      have "mark_loop s (k # ks) = Inl (RuntimeError, ?t)"
        using mark_loop_Cons [OF Cons.prems(1) m] \<open>m + 1 > maxDisappeared s\<close> False by simp
      then show ?thesis using sb by blast
    qed
  next
    case False
    have eq: "mark_loop s (k # ks) = mark_loop ?t ks"
      using mark_loop_Cons [OF Cons.prems(1) m] False by simp
    have t1: "map fst (disappeared ?t) = map fst (objectsTracked ?t)"
      by (rule bump_keys(1) [OF Cons.prems(1) kin])
    have t2: "distinct ks" using Cons.prems(2) by simp
    have t3: "set ks \<subseteq> set (map fst (objectsTracked ?t))"
    proof
      fix k' assume k': "k' \<in> set ks"
      then have "k' \<noteq> k" using fresh by auto
      moreover have "k' \<in> set (map fst (objectsTracked s))" using Cons.prems(3) k' by auto
      ultimately show "k' \<in> set (map fst (objectsTracked ?t))"
        by (rule bump_keys(4) [OF Cons.prems(1) kin])
    qed
    from Cons.IH [OF t1 t2 t3] show ?thesis
    proof
      assume "\<exists>s'. mark_loop ?t ks = Inr s' \<and> shrinks ?t s' \<and>
                (\<forall>k'. if k' \<in> set ks then bumped ?t s' k' else untouched ?t s' k')"
      then obtain s' where s': "mark_loop ?t ks = Inr s'" "shrinks ?t s'"
        and pk: "\<forall>k'. if k' \<in> set ks then bumped ?t s' k' else untouched ?t s' k'"
        by blast
      have "\<forall>k'. if k' \<in> set (k # ks) then bumped s s' k' else untouched s s' k'"
        using bump_compose [OF m fresh pk] by simp
      then show ?thesis using eq s' shrinks_trans [OF sb s'(2)] by auto
    next
      assume "\<exists>s'. mark_loop ?t ks = Inl (RuntimeError, s') \<and> shrinks ?t s'"
      then obtain s' where s': "mark_loop ?t ks = Inl (RuntimeError, s')" "shrinks ?t s'"
        by blast
      then show ?thesis using eq shrinks_trans [OF sb s'(2)] by auto
    qed
  qed
qed

lemma match_loop_result:
  assumes "map fst (objectsTracked s) = ids" "map fst (disappeared s) = ids"
    and "distinct ids" "\<forall>p \<in> set ps. fst p < length ids"
    and "match_loop s ids ic ps uR uC = (s1, uR1, uC1)"
  shows "nextObjectID s1 = nextObjectID s \<and> maxDisappeared s1 = maxDisappeared s \<and>
         map fst (objectsTracked s1) = ids \<and> map fst (disappeared s1) = ids \<and>
         uR \<subseteq> uR1 \<and> uC \<subseteq> uC1 \<and> uR1 \<subseteq> uR \<union> fst ` set ps \<and> uC1 \<subseteq> uC \<union> snd ` set ps \<and>
         (\<forall>r < length ids.
            if r \<in> uR1 - uR
            then \<exists>c. (r, c) \<in> set ps \<and> c \<in> uC1 \<and> matched_to s1 (ic ! c) (ids ! r)
            else untouched s s1 (ids ! r))"
  using assms
proof (induction ps arbitrary: s uR uC)
  case Nil
  then show ?case by (auto simp: untouched_def)
next
  case (Cons p ps)
  obtain r c where p: "p = (r, c)" by (cases p)
  have rlt: "r < length ids" using Cons.prems(4) p by simp
  have rest: "\<forall>p \<in> set ps. fst p < length ids" using Cons.prems(4) by simp
  show ?case
  proof (cases "r \<in> uR \<or> c \<in> uC")
    case True
    then have "match_loop s ids ic ps uR uC = (s1, uR1, uC1)"
      using Cons.prems(5) p by simp
    from Cons.IH [OF Cons.prems(1,2,3) rest this]
    show ?thesis by (auto simp: p split: if_splits)
  next
    case False
    let ?k = "ids ! r"
    let ?sa = "s\<lparr>objectsTracked := AList.update ?k (ic ! c) (objectsTracked s),
                  disappeared := AList.update ?k 0 (disappeared s)\<rparr>"
    have kin: "?k \<in> set ids" using rlt by simp
    have a1: "map fst (objectsTracked ?sa) = ids"
      using Cons.prems(1) kin by (simp add: update_keys)
    have a2: "map fst (disappeared ?sa) = ids"
      using Cons.prems(2) kin by (simp add: update_keys)
    have a5: "match_loop ?sa ids ic ps (insert r uR) (insert c uC) = (s1, uR1, uC1)"
      using Cons.prems(5) p False by (simp add: Let_def)
    note IH = Cons.IH [OF a1 a2 Cons.prems(3) rest a5]
    have mk: "matched_to ?sa (ic ! c) ?k"
      by (simp add: matched_to_def update_conv')
    have other: "untouched s ?sa k'" if "k' \<noteq> ?k" for k'
      using that by (simp add: untouched_def update_conv')
    have rows: "if r' \<in> uR1 - uR
            then \<exists>c'. (r', c') \<in> set (p # ps) \<and> c' \<in> uC1 \<and> matched_to s1 (ic ! c') (ids ! r')
            else untouched s s1 (ids ! r')" if r': "r' < length ids" for r'
    proof (cases "r' = r")
      case True
      have "r \<notin> uR1 - insert r uR" by simp
      then have "untouched ?sa s1 ?k" using IH rlt by metis
      then have "matched_to s1 (ic ! c) ?k"
        using mk by (simp add: untouched_def matched_to_def)
      moreover have "r \<in> uR1 - uR" "c \<in> uC1" using IH False by auto
      ultimately show ?thesis using True p by auto
    next
      case neq: False
      then have "ids ! r' \<noteq> ?k"
        using Cons.prems(3) r' rlt by (simp add: nth_eq_iff_index_eq)
      then have u: "untouched s ?sa (ids ! r')" by (rule other)
      show ?thesis
      proof (cases "r' \<in> uR1 - uR")
        case True
        then have "r' \<in> uR1 - insert r uR" using neq by simp
        then have "\<exists>c'. (r', c') \<in> set ps \<and> c' \<in> uC1 \<and> matched_to s1 (ic ! c') (ids ! r')"
          using IH r' by metis
        then show ?thesis using True by auto
      next
        case False
        then have "r' \<notin> uR1 - insert r uR" by simp
        then have "untouched ?sa s1 (ids ! r')" using IH r' by metis
        then have "untouched s s1 (ids ! r')" by (rule untouched_trans [OF u])
        then show ?thesis using False by auto
      qed
    qed
    have "nextObjectID s1 = nextObjectID s" "maxDisappeared s1 = maxDisappeared s"
      "map fst (objectsTracked s1) = ids" "map fst (disappeared s1) = ids"
      using IH by simp_all
    moreover have "uR \<subseteq> uR1" "uC \<subseteq> uC1" using IH by auto
    moreover have "uR1 \<subseteq> uR \<union> fst ` set (p # ps)" "uC1 \<subseteq> uC \<union> snd ` set (p # ps)"
      using IH p by auto
    ultimately show ?thesis using rows by blast
  qed
qed

lemma index_of_props:
  "v \<in> set xs \<Longrightarrow>
     index_of v xs < length xs \<and> xs ! index_of v xs = v \<and> (\<forall>j < index_of v xs. xs ! j \<noteq> v)"
proof (induction xs)
  case Nil
  then show ?case by simp
next
  case (Cons x xs)
  show ?case
  proof (cases "x = v")
    case True
    then show ?thesis by simp
  next
    case False
    then have "v \<in> set xs" using Cons.prems by simp
    from Cons.IH [OF this] False show ?thesis
      by (auto simp: nth_Cons split: nat.splits)
  qed
qed

lemma min_list_in: "xs \<noteq> [] \<Longrightarrow> min_list xs \<in> set (xs::int list)"
  by (simp add: min_list_Min)

lemma min_list_le: "x \<in> set xs \<Longrightarrow> min_list xs \<le> (x::int)"
  by (cases "xs = []") (simp_all add: min_list_Min)

lemma argmin_props:
  assumes "xs \<noteq> []"
  shows "argmin xs < length xs"
    and "xs ! argmin xs = min_list xs"
    and "\<And>j. j < length xs \<Longrightarrow> xs ! argmin xs \<le> xs ! j"
    and "\<And>j. j < argmin xs \<Longrightarrow> xs ! argmin xs < xs ! j"
proof -
  note p = index_of_props [OF min_list_in [OF assms]]
  show a: "argmin xs < length xs" using p by (simp add: argmin_def)
  show b: "xs ! argmin xs = min_list xs" using p by (simp add: argmin_def)
  show c: "xs ! argmin xs \<le> xs ! j" if "j < length xs" for j
    using that b min_list_le [of "xs ! j" xs] by simp
  show "xs ! argmin xs < xs ! j" if "j < argmin xs" for j
  proof -
    have "xs ! j \<noteq> min_list xs" using p that by (simp add: argmin_def)
    moreover have "min_list xs \<le> xs ! j" using c [of j] that a b by simp
    ultimately show ?thesis using b by simp
  qed
qed

lemma argsort_props:
  "length (argsort xs) = length xs"
  "set (argsort xs) = {0..<length xs}"
  "distinct (argsort xs)"
  "sorted (map (\<lambda>i. xs ! i) (argsort xs))"
  by (simp_all add: argsort_def)

lemma cdist_props:
  "length (cdist XA XB) = length XA"
  "r < length XA \<Longrightarrow> cdist XA XB ! r = map (euclidean (XA ! r)) XB"
  by (simp_all add: cdist_def)

lemma matching_rows_props:
  "length (matching_rows D) = length D"
  "set (matching_rows D) = {0..<length D}"
  "distinct (matching_rows D)"
  "sorted (map (\<lambda>r. min_list (D ! r)) (matching_rows D))"
proof -
  show "length (matching_rows D) = length D" "set (matching_rows D) = {0..<length D}"
    "distinct (matching_rows D)"
    by (simp_all add: matching_rows_def argsort_props)
  have "map (\<lambda>r. min_list (D ! r)) (matching_rows D) =
        map (\<lambda>i. map min_list D ! i) (argsort (map min_list D))"
    using argsort_props(2) [of "map min_list D"] by (simp add: matching_rows_def)
  then show "sorted (map (\<lambda>r. min_list (D ! r)) (matching_rows D))"
    using argsort_props(4) [of "map min_list D"] by simp
qed

lemma matching_pairs_rows:
  "\<forall>p \<in> set (zip (matching_rows D) (matching_cols D)). fst p < length D"
  using matching_rows_props(2) [of D] by (auto dest!: set_zip_leftD)

lemma matching_pairs_cols:
  "(r, c) \<in> set (zip (matching_rows D) (matching_cols D)) \<Longrightarrow> c = argmin (D ! r)"
  unfolding matching_cols_def by (auto simp: zip_map2 zip_same)

lemma update_matching_unfold:
  assumes "rect \<noteq> []" "objectsTracked s \<noteq> []"
  shows "update s rect =
    (case matching_pass s (map centroid_of rect) of
       (s1, usedRows, usedCols) \<Rightarrow>
         if length rect \<le> length (objectsTracked s)
         then disappear_loop s1 (map fst (objectsTracked s))
                (filter (\<lambda>r. r \<notin> usedRows) [0..<length (objectsTracked s)])
         else Inr (foldl register s1
                (map ((!) (map centroid_of rect))
                   (filter (\<lambda>c. c \<notin> usedCols) [0..<length rect]))))"
  using assms by (simp add: update_def Let_def)

lemma matching_pass_result:
  fixes s :: tracker and ic :: "centroid list"
  defines "ids \<equiv> map fst (objectsTracked s)"
    and "D \<equiv> cdist (map snd (objectsTracked s)) ic"
  assumes inv: "tracker_inv s" and mp: "matching_pass s ic = (s1, uR, uC)"
  shows "nextObjectID s1 = nextObjectID s" "maxDisappeared s1 = maxDisappeared s"
    "map fst (objectsTracked s1) = ids" "map fst (disappeared s1) = ids"
    "tracker_inv s1" "uR \<subseteq> {0..<length ids}"
    "\<And>r. r < length ids \<Longrightarrow> r \<in> uR \<Longrightarrow>
        argmin (D ! r) \<in> uC \<and> matched_to s1 (ic ! argmin (D ! r)) (ids ! r)"
    "\<And>r. r < length ids \<Longrightarrow> r \<notin> uR \<Longrightarrow> untouched s s1 (ids ! r)"
    "uC \<subseteq> set (matching_cols D)"
proof -
  let ?ps = "zip (matching_rows D) (matching_cols D)"
  have lenD: "length D = length ids" by (simp add: D_def ids_def cdist_props)
  have a1: "map fst (objectsTracked s) = ids" by (simp add: ids_def)
  have a2: "map fst (disappeared s) = ids" using tracker_invD(1) [OF inv] by (simp add: ids_def)
  have a3: "distinct ids" using tracker_invD(2) [OF inv] by (simp add: ids_def)
  have a4: "\<forall>p \<in> set ?ps. fst p < length ids"
    using matching_pairs_rows [of D] lenD by simp
  have a5: "match_loop s ids ic ?ps {} {} = (s1, uR, uC)"
    using mp by (simp add: matching_pass_def Let_def ids_def D_def)
  note R = match_loop_result [OF a1 a2 a3 a4 a5]
  show n: "nextObjectID s1 = nextObjectID s" and "maxDisappeared s1 = maxDisappeared s"
    and k1: "map fst (objectsTracked s1) = ids" and k2: "map fst (disappeared s1) = ids"
    using R by simp_all
  show "tracker_inv s1"
    unfolding tracker_inv_def k1 k2 n
    using a3 tracker_invD(3) [OF inv] by (simp add: ids_def)
  have "uR \<subseteq> fst ` set ?ps" using R by simp
  then show "uR \<subseteq> {0..<length ids}" using a4 by fastforce
  have "uC \<subseteq> snd ` set ?ps" using R by simp
  moreover have "snd ` set ?ps \<subseteq> set (matching_cols D)"
    by (auto dest: set_zip_rightD)
  ultimately show "uC \<subseteq> set (matching_cols D)" by (rule subset_trans)
  show "argmin (D ! r) \<in> uC \<and> matched_to s1 (ic ! argmin (D ! r)) (ids ! r)"
    if "r < length ids" "r \<in> uR" for r
  proof -
    have "\<exists>c. (r, c) \<in> set ?ps \<and> c \<in> uC \<and> matched_to s1 (ic ! c) (ids ! r)"
      using R that by (metis Diff_empty)
    then show ?thesis using matching_pairs_cols by blast
  qed
  show "untouched s s1 (ids ! r)" if "r < length ids" "r \<notin> uR" for r
    using R that by (metis Diff_empty)
qed

lemma matched_untouched: "matched_to s c k \<Longrightarrow> untouched s s' k \<Longrightarrow> matched_to s' c k"
  by (simp add: matched_to_def untouched_def)

lemma nth_image_distinct:
  assumes "distinct ids" "r < length ids" "\<forall>r' \<in> set rs. r' < length ids"
  shows "ids ! r \<in> (!) ids ` set rs \<longleftrightarrow> r \<in> set rs"
  using assms by (auto simp: nth_eq_iff_index_eq)

lemma update_shrink_case:
  fixes s :: tracker and rect :: "rect list"
  defines "ids \<equiv> map fst (objectsTracked s)"
    and "ic \<equiv> map centroid_of rect"
  defines "D \<equiv> cdist (map snd (objectsTracked s)) ic"
  assumes inv: "tracker_inv s" and ne: "rect \<noteq> []" "objectsTracked s \<noteq> []"
    and le: "length rect \<le> length (objectsTracked s)"
  shows "\<exists>s1 uR uC s'. matching_pass s ic = (s1, uR, uC) \<and> update s rect = Inr s' \<and>
           shrinks s s' \<and>
           (\<forall>r < length ids. if r \<in> uR then matched_to s' (ic ! argmin (D ! r)) (ids ! r)
                                else bumped s s' (ids ! r))"
proof -
  obtain s1 uR uC where mp: "matching_pass s ic = (s1, uR, uC)"
    by (cases "matching_pass s ic") auto
  note R = matching_pass_result [OF inv mp, folded ids_def D_def]
  let ?un = "filter (\<lambda>r. r \<notin> uR) [0..<length (objectsTracked s)]"
  have len: "length ids = length (objectsTracked s)" by (simp add: ids_def)
  have dids: "distinct ids" using tracker_invD(2) [OF inv] by (simp add: ids_def)
  have unlt: "\<forall>r \<in> set ?un. r < length ids" using len by simp
  have b1: "map fst (disappeared s1) = map fst (objectsTracked s1)" using R(3,4) by simp
  have b2: "distinct (map ((!) ids) ?un)"
    using dids unlt by (simp add: distinct_map inj_on_nth)
  have b3: "\<forall>r \<in> set ?un. ids ! r \<in> set (map fst (objectsTracked s1))"
    using R(3) unlt by simp
  obtain s' where dl: "disappear_loop s1 ids ?un = Inr s'" and sh1: "shrinks s1 s'"
    and pk: "\<forall>k. if k \<in> (!) ids ` set ?un then bumped s1 s' k else untouched s1 s' k"
    using disappear_loop_result [OF b1 b2 b3] by blast
  have upd: "update s rect = Inr s'"
    using update_matching_unfold [OF ne] mp dl le by (simp add: ic_def ids_def)
  have sh0: "shrinks s s1"
    unfolding shrinks_def using R(1,2,3,4) by (simp add: ids_def)
  have sh: "shrinks s s'" by (rule shrinks_trans [OF sh0 sh1])
  have rows: "if r \<in> uR then matched_to s' (ic ! argmin (D ! r)) (ids ! r)
              else bumped s s' (ids ! r)" if r: "r < length ids" for r
  proof (cases "r \<in> uR")
    case True
    then have "r \<notin> set ?un" by simp
    then have "ids ! r \<notin> (!) ids ` set ?un"
      using nth_image_distinct [OF dids r unlt] by simp
    then have u: "untouched s1 s' (ids ! r)" using pk by metis
    have "matched_to s1 (ic ! argmin (D ! r)) (ids ! r)" using R(7) [OF r True] by blast
    then have "matched_to s' (ic ! argmin (D ! r)) (ids ! r)"
      using u by (rule matched_untouched)
    then show ?thesis using True by simp
  next
    case False
    then have "r \<in> set ?un" using r len by simp
    then have "bumped s1 s' (ids ! r)" using pk by (metis imageI)
    then have "bumped s s' (ids ! r)"
      using untouched_bumped [OF R(8) [OF r False] R(2)] by simp
    then show ?thesis using False by simp
  qed
  show ?thesis using mp upd sh rows by blast
qed

lemma map_of_append_left:
  "k \<in> set (map fst xs) \<Longrightarrow> map_of (xs @ ys) k = map_of xs k"
  by (simp add: map_add_dom_app_simps(1) dom_map_of_conv_image_fst)

lemma update_grow_case:
  fixes s :: tracker and rect :: "rect list"
  defines "ids \<equiv> map fst (objectsTracked s)"
    and "ic \<equiv> map centroid_of rect"
  defines "D \<equiv> cdist (map snd (objectsTracked s)) ic"
  assumes inv: "tracker_inv s" and ne: "objectsTracked s \<noteq> []"
    and lt: "length (objectsTracked s) < length rect"
  shows "\<exists>s1 uR uC s' news. matching_pass s ic = (s1, uR, uC) \<and> update s rect = Inr s' \<and>
           news = map ((!) ic) (filter (\<lambda>c. c \<notin> uC) [0..<length rect]) \<and>
           tracker_inv s' \<and> nextObjectID s' = nextObjectID s + int (length news) \<and>
           maxDisappeared s' = maxDisappeared s \<and>
           objectsTracked s' =
             objectsTracked s1 @ map (\<lambda>i. (nextObjectID s + int i, news ! i)) [0..<length news] \<and>
           disappeared s' =
             disappeared s1 @ map (\<lambda>i. (nextObjectID s + int i, 0)) [0..<length news] \<and>
           map fst (objectsTracked s1) = ids \<and>
           (\<forall>r < length ids. if r \<in> uR then matched_to s' (ic ! argmin (D ! r)) (ids ! r)
                                else untouched s s' (ids ! r))"
proof -
  have rne: "rect \<noteq> []" using lt by auto
  obtain s1 uR uC where mp: "matching_pass s ic = (s1, uR, uC)"
    by (cases "matching_pass s ic") auto
  note R = matching_pass_result [OF inv mp, folded ids_def D_def]
  define news where "news = map ((!) ic) (filter (\<lambda>c. c \<notin> uC) [0..<length rect])"
  define s' where "s' = foldl register s1 news"
  have upd: "update s rect = Inr s'"
    using update_matching_unfold [OF rne ne] mp lt by (simp add: ic_def s'_def news_def)
  note F = foldl_register_inv [OF R(5), of news, folded s'_def, unfolded R(1)]
  have ot: "objectsTracked s' =
             objectsTracked s1 @ map (\<lambda>i. (nextObjectID s + int i, news ! i)) [0..<length news]"
    and di: "disappeared s' =
             disappeared s1 @ map (\<lambda>i. (nextObjectID s + int i, 0)) [0..<length news]"
    and inv': "tracker_inv s'"
    using F by simp_all
  have old: "untouched s1 s' k" if "k \<in> set ids" for k
  proof -
    have "k \<in> set (map fst (objectsTracked s1))" "k \<in> set (map fst (disappeared s1))"
      using that R(3,4) by simp_all
    then show ?thesis
      unfolding untouched_def ot di by (simp only: map_of_append_left)
  qed
  have rows: "if r \<in> uR then matched_to s' (ic ! argmin (D ! r)) (ids ! r)
              else untouched s s' (ids ! r)" if r: "r < length ids" for r
  proof (cases "r \<in> uR")
    case True
    have "matched_to s1 (ic ! argmin (D ! r)) (ids ! r)" using R(7) [OF r True] by blast
    moreover have "untouched s1 s' (ids ! r)" using old r by simp
    ultimately have "matched_to s' (ic ! argmin (D ! r)) (ids ! r)"
      by (rule matched_untouched)
    then show ?thesis using True by simp
  next
    case False
    then show ?thesis
      using untouched_trans [OF R(8) [OF r False] old] r by simp
  qed
  have "nextObjectID s' = nextObjectID s + int (length news)" "maxDisappeared s' = maxDisappeared s"
    using R(1,2) by (simp_all add: s'_def)
  then show ?thesis using mp upd news_def inv' ot di R(3) rows by blast
qed

lemma shrinks_inv:
  assumes "tracker_inv s" "shrinks s s'"
  shows "tracker_inv s'"
proof -
  note i = tracker_invD [OF assms(1)]
  have s: "nextObjectID s' = nextObjectID s"
    "map fst (disappeared s') = map fst (objectsTracked s')"
    "set (map fst (objectsTracked s')) \<subseteq> set (map fst (objectsTracked s))"
    "distinct (map fst (objectsTracked s'))"
    using assms(2) i(2) unfolding shrinks_def by blast+
  show ?thesis
    unfolding tracker_inv_def using s i(3) by (metis subsetD)
qed

lemma argmin_col_in_range:
  assumes "r < length objs" "ic \<noteq> []"
  shows "argmin (cdist objs ic ! r) < length ic"
proof -
  have "cdist objs ic ! r = map (euclidean (objs ! r)) ic" using assms(1) by (simp add: cdist_props)
  moreover have "map (euclidean (objs ! r)) ic \<noteq> []" using assms(2) by simp
  ultimately show ?thesis using argmin_props(1) [of "map (euclidean (objs ! r)) ic"] by simp
qed

lemma update_empty_result:
  assumes "tracker_inv s"
  shows "(\<exists>s'. update s [] = Inr s' \<and> shrinks s s' \<and>
            (\<forall>k \<in> set (map fst (objectsTracked s)). bumped s s' k)) \<or>
         (\<exists>s'. update s [] = Inl (RuntimeError, s') \<and> shrinks s s')"
proof -
  have a1: "map fst (disappeared s) = map fst (objectsTracked s)"
    and a2: "distinct (map fst (disappeared s))"
    and a3: "set (map fst (disappeared s)) \<subseteq> set (map fst (objectsTracked s))"
    using tracker_invD(1,2) [OF assms] by simp_all
  have u: "update s [] = mark_loop s (map fst (disappeared s))" by (simp add: update_def)
  from mark_loop_result [OF a1 a2 a3] show ?thesis
    unfolding u a1 by (metis (no_types, lifting))
qed

lemma update_register_all:
  "objectsTracked s = [] \<Longrightarrow> rect \<noteq> [] \<Longrightarrow>
     update s rect = Inr (foldl register s (map centroid_of rect))"
  by (simp add: update_def)

lemma bumped_present:
  assumes "bumped s s' k" "k \<in> set (map fst (objectsTracked s'))"
  shows "map_of (objectsTracked s') k = map_of (objectsTracked s) k \<and>
         (\<exists>m. map_of (disappeared s) k = Some m \<and> map_of (disappeared s') k = Some (m + 1))"
proof -
  have "map_of (objectsTracked s') k \<noteq> None" using assms(2) by (simp only: map_of_in_keys)
  then show ?thesis using assms(1) unfolding bumped_def
    by (cases "map_of (disappeared s) k") (simp_all split: if_splits)
qed

lemma key_index: "k \<in> set (map fst al) \<Longrightarrow> \<exists>r < length (map fst al). map fst al ! r = k"
  by (metis in_set_conv_nth)

lemma update_shrink_keys:
  assumes inv: "tracker_inv s" and ne: "rect \<noteq> []"
    and le: "length rect \<le> length (objectsTracked s)"
  shows "\<exists>s'. update s rect = Inr s' \<and> shrinks s s' \<and>
           (\<forall>k \<in> set (map fst (objectsTracked s)).
              (\<exists>c \<in> set (map centroid_of rect). matched_to s' c k) \<or> bumped s s' k)"
proof -
  let ?ids = "map fst (objectsTracked s)"
  let ?ic = "map centroid_of rect"
  let ?D = "cdist (map snd (objectsTracked s)) ?ic"
  have one: "objectsTracked s \<noteq> []" using ne le by auto
  obtain s1 uR uC s' where upd: "update s rect = Inr s'" and sh: "shrinks s s'"
    and rows: "\<forall>r < length ?ids. if r \<in> uR then matched_to s' (?ic ! argmin (?D ! r)) (?ids ! r)
                                else bumped s s' (?ids ! r)"
    using update_shrink_case [OF inv ne one le] by blast
  have "(\<exists>c \<in> set ?ic. matched_to s' c k) \<or> bumped s s' k" if kin: "k \<in> set ?ids" for k
  proof -
    obtain r where r: "r < length ?ids" "?ids ! r = k" using key_index [OF kin] by blast
    have "argmin (?D ! r) < length ?ic"
      using argmin_col_in_range [of r "map snd (objectsTracked s)" ?ic] r(1) ne by simp
    then have "?ic ! argmin (?D ! r) \<in> set ?ic" by (rule nth_mem)
    then show ?thesis using rows r by (metis (no_types, lifting))
  qed
  then show ?thesis using upd sh by blast
qed

lemma update_grow_keys:
  assumes inv: "tracker_inv s" and lt: "length (objectsTracked s) < length rect"
  shows "\<exists>s'. update s rect = Inr s' \<and> tracker_inv s' \<and>
           nextObjectID s \<le> nextObjectID s' \<and> maxDisappeared s' = maxDisappeared s \<and>
           set (map fst (objectsTracked s)) \<subseteq> set (map fst (objectsTracked s')) \<and>
           (\<forall>k \<in> set (map fst (objectsTracked s')).
              k \<in> set (map fst (objectsTracked s)) \<or> nextObjectID s \<le> k) \<and>
           (\<forall>k \<in> set (map fst (objectsTracked s)).
              (\<exists>c \<in> set (map centroid_of rect). matched_to s' c k) \<or> untouched s s' k)"
proof (cases "objectsTracked s = []")
  case True
  have ne: "rect \<noteq> []" using lt by auto
  let ?s' = "foldl register s (map centroid_of rect)"
  have "update s rect = Inr ?s'" by (rule update_register_all [OF True ne])
  moreover have "tracker_inv ?s'" using foldl_register_inv [OF inv] by blast
  moreover have "\<forall>k \<in> set (map fst (objectsTracked ?s')). nextObjectID s \<le> k"
    using foldl_register_inv [OF inv, of "map centroid_of rect"] True by auto
  ultimately show ?thesis using True by auto
next
  case False
  let ?ids = "map fst (objectsTracked s)"
  let ?ic = "map centroid_of rect"
  let ?D = "cdist (map snd (objectsTracked s)) ?ic"
  have ne: "rect \<noteq> []" using lt by auto
  from update_grow_case [OF inv False lt] show ?thesis
  proof (elim exE conjE)
    fix s1 uR uC s' news
    assume upd: "update s rect = Inr s'" and inv': "tracker_inv s'"
      and nx: "nextObjectID s' = nextObjectID s + int (length news)"
      and mx: "maxDisappeared s' = maxDisappeared s"
      and ot: "objectsTracked s' =
             objectsTracked s1 @ map (\<lambda>i. (nextObjectID s + int i, news ! i)) [0..<length news]"
      and k1: "map fst (objectsTracked s1) = ?ids"
      and rows: "\<forall>r < length ?ids. if r \<in> uR then matched_to s' (?ic ! argmin (?D ! r)) (?ids ! r)
                                else untouched s s' (?ids ! r)"
    have keys: "map fst (objectsTracked s') = ?ids @ map (\<lambda>i. nextObjectID s + int i) [0..<length news]"
      unfolding ot using k1 by (simp add: comp_def)
    have sub: "set ?ids \<subseteq> set (map fst (objectsTracked s'))" unfolding keys by simp
    have new: "\<forall>k \<in> set (map fst (objectsTracked s')). k \<in> set ?ids \<or> nextObjectID s \<le> k"
      unfolding keys by auto
    have "(\<exists>c \<in> set ?ic. matched_to s' c k) \<or> untouched s s' k" if kin: "k \<in> set ?ids" for k
    proof -
      obtain r where r: "r < length ?ids" "?ids ! r = k" using key_index [OF kin] by blast
      have "argmin (?D ! r) < length ?ic"
        using argmin_col_in_range [of r "map snd (objectsTracked s)" ?ic] r(1) ne by simp
      then have "?ic ! argmin (?D ! r) \<in> set ?ic" by (rule nth_mem)
      then show ?thesis using rows r by (metis (no_types, lifting))
    qed
    then show ?thesis using upd inv' nx mx sub new by auto
  qed
qed

lemma advances_refl: "tracker_inv s \<Longrightarrow> advances s s"
  by (simp add: advances_def)

lemma advances_trans:
  assumes "advances s t" "advances t u"
  shows "advances s u"
proof -
  have "k \<in> set (map fst (objectsTracked s)) \<or> nextObjectID s \<le> k"
    if "k \<in> set (map fst (objectsTracked u))" for k
  proof -
    have "k \<in> set (map fst (objectsTracked t)) \<or> nextObjectID t \<le> k"
      using assms(2) that unfolding advances_def by blast
    moreover have "nextObjectID s \<le> nextObjectID t" using assms(1) unfolding advances_def by blast
    moreover have "k \<in> set (map fst (objectsTracked t)) \<Longrightarrow>
        k \<in> set (map fst (objectsTracked s)) \<or> nextObjectID s \<le> k"
      using assms(1) unfolding advances_def by blast
    ultimately show ?thesis by linarith
  qed
  moreover have "tracker_inv u" "nextObjectID s \<le> nextObjectID u"
    using assms unfolding advances_def by auto
  ultimately show ?thesis unfolding advances_def by blast
qed

lemma shrinks_advances:
  assumes "tracker_inv s" "shrinks s s'"
  shows "advances s s'"
proof -
  have "tracker_inv s'" by (rule shrinks_inv [OF assms])
  moreover have "nextObjectID s' = nextObjectID s"
    "set (map fst (objectsTracked s')) \<subseteq> set (map fst (objectsTracked s))"
    using assms(2) unfolding shrinks_def by blast+
  ultimately show ?thesis unfolding advances_def by auto
qed

lemma update_advances:
  assumes inv: "tracker_inv s"
  shows "advances s (tracker_after (update s rect))"
proof (cases "rect = []")
  case True
  from update_empty_result [OF inv] show ?thesis
  proof
    assume "\<exists>s'. update s [] = Inr s' \<and> shrinks s s' \<and>
              (\<forall>k \<in> set (map fst (objectsTracked s)). bumped s s' k)"
    then obtain s' where "update s [] = Inr s'" "shrinks s s'" by blast
    then show ?thesis using True shrinks_advances [OF inv] by (simp add: tracker_after_def)
  next
    assume "\<exists>s'. update s [] = Inl (RuntimeError, s') \<and> shrinks s s'"
    then obtain s' where "update s [] = Inl (RuntimeError, s')" "shrinks s s'" by blast
    then show ?thesis using True shrinks_advances [OF inv] by (simp add: tracker_after_def)
  qed
next
  case ne: False
  show ?thesis
  proof (cases "length rect \<le> length (objectsTracked s)")
    case True
    obtain s' where "update s rect = Inr s'" "shrinks s s'"
      using update_shrink_keys [OF inv ne True] by blast
    then show ?thesis using shrinks_advances [OF inv] by (simp add: tracker_after_def)
  next
    case False
    then have lt: "length (objectsTracked s) < length rect" by simp
    obtain s' where "update s rect = Inr s'" "advances s s'"
      using update_grow_keys [OF inv lt] unfolding advances_def by blast
    then show ?thesis by (simp add: tracker_after_def)
  qed
qed

lemma tracker_after_run_Cons:
  "tracker_after (run s (rect # frames)) =
     (case update s rect of Inl e \<Rightarrow> tracker_after (update s rect)
      | Inr s' \<Rightarrow> tracker_after (run s' frames))"
  by (simp add: tracker_after_def split: sum.splits)

lemma run_advances: "tracker_inv s \<Longrightarrow> advances s (tracker_after (run s frames))"
proof (induction frames arbitrary: s)
  case Nil
  then show ?case by (simp add: tracker_after_def advances_refl)
next
  case (Cons rect frames)
  have step: "advances s (tracker_after (update s rect))" by (rule update_advances [OF Cons.prems])
  show ?case
  proof (cases "update s rect")
    case (Inl e)
    then show ?thesis using step by (simp add: tracker_after_run_Cons)
  next
    case (Inr t)
    then have st: "advances s t" using step by (simp add: tracker_after_def)
    then have "tracker_inv t" unfolding advances_def by blast
    from advances_trans [OF st Cons.IH [OF this]] show ?thesis
      using Inr by (simp add: tracker_after_run_Cons)
  qed
qed

lemma FaceTracker_inv: "tracker_inv (FaceTracker m)"
  by (simp add: tracker_inv_def FaceTracker_def)

lemma reachable_inv: "run (FaceTracker m) history = Inr s \<Longrightarrow> tracker_inv s"
  using run_advances [OF FaceTracker_inv, of m history]
  by (simp add: tracker_after_def advances_def)

























section \<open>The claims\<close>

text \<open>
  C1. The claim: \<^verbatim>\<open>update\<close> never raises; with an empty detection list an object whose
  counter passes \<open>maxDisappeared\<close> is silently deregistered and the shrunk mapping is
  returned. The code does not do this as soon as two objects are tracked. With the
  default limit 13, two faces are registered and then missing for 14 frames: the first 13
  empty calls return normally with both counters at 13, and the 14th deregisters object 1
  while the loop is still iterating the dictionary, so the next step of the iteration
  raises \<^verbatim>\<open>RuntimeError\<close>; object 2 is left with its counter not incremented.
\<close>

theorem update_empty_raises_with_two_objects:
  "run (FaceTracker 13) ([(0, 0, 2, 2), (10, 10, 12, 12)] # replicate 13 []) =
     Inr \<lparr>nextObjectID = 3, objectsTracked = [(1, (1, 1)), (2, (11, 11))],
          disappeared = [(1, 13), (2, 13)], maxDisappeared = 13\<rparr> \<and>
   update \<lparr>nextObjectID = 3, objectsTracked = [(1, (1, 1)), (2, (11, 11))],
           disappeared = [(1, 13), (2, 13)], maxDisappeared = 13\<rparr> [] =
     Inl (RuntimeError,
          \<lparr>nextObjectID = 3, objectsTracked = [(2, (11, 11))],
           disappeared = [(2, 13)], maxDisappeared = 13\<rparr>)"
  by code_simp

text \<open>
  C2. The claim: every object that exists before and after a call is either matched
  (centroid replaced by a detection's centroid, counter 0) or has its counter incremented
  by 1. This fails when the detections outnumber the tracked objects: an object that gets
  no detection is then left as it was. Objects 1 at (1, 1) and 2 at (11, 11) both have
  the detection at (1, 1) as their nearest one; object 1 takes it, the two other
  detections are registered, and object 2 keeps its centroid (not the centroid of any
  detection) and its counter 0.
\<close>

theorem unmatched_object_not_incremented_example:
  "run (FaceTracker 13) [[(0, 0, 2, 2), (10, 10, 12, 12)]] = Inr two_tracked \<and>
   update two_tracked three_detections =
     Inr \<lparr>nextObjectID = 5,
          objectsTracked = [(1, (1, 1)), (2, (11, 11)), (3, (101, 101)), (4, (201, 201))],
          disappeared = [(1, 0), (2, 0), (3, 0), (4, 0)], maxDisappeared = 13\<rparr> \<and>
   map_of (objectsTracked two_tracked) 2 = Some (11, 11) \<and>
   map_of (disappeared two_tracked) 2 = Some 0 \<and>
   (11, 11) \<notin> set (map centroid_of three_detections)"
  by (simp add: two_tracked_def three_detections_def) code_simp

text \<open>
  C2, as the code has it: an object that exists before and after a call that returns is
  matched, or (when there are no detections, or no more detections than objects) keeps
  its centroid and has its counter incremented by 1, or (when the detections outnumber
  the objects) is left with the same centroid and counter.
\<close>

theorem update_effect_on_survivor:
  assumes inv: "tracker_inv s" and upd: "update s rect = Inr s'"
    and before: "k \<in> set (map fst (objectsTracked s))"
    and after: "k \<in> set (map fst (objectsTracked s'))"
  shows "(\<exists>c \<in> set (map centroid_of rect). matched_to s' c k) \<or>
         (length rect \<le> length (objectsTracked s) \<and>
          map_of (objectsTracked s') k = map_of (objectsTracked s) k \<and>
          (\<exists>m. map_of (disappeared s) k = Some m \<and> map_of (disappeared s') k = Some (m + 1))) \<or>
         (length (objectsTracked s) < length rect \<and> untouched s s' k)"
proof (cases "rect = []")
  case True
  then have "bumped s s' k"
    using update_empty_result [OF inv] upd before by auto
  then show ?thesis using bumped_present [OF _ after] True by simp
next
  case ne: False
  show ?thesis
  proof (cases "length rect \<le> length (objectsTracked s)")
    case True
    then have "(\<exists>c \<in> set (map centroid_of rect). matched_to s' c k) \<or> bumped s s' k"
      using update_shrink_keys [OF inv ne True] upd before by auto
    then show ?thesis using bumped_present [OF _ after] True by blast
  next
    case False
    then have lt: "length (objectsTracked s) < length rect" by simp
    then have "(\<exists>c \<in> set (map centroid_of rect). matched_to s' c k) \<or> untouched s s' k"
      using update_grow_keys [OF inv lt] upd before by auto
    then show ?thesis using lt by blast
  qed
qed

theorem update_effect_on_survivor_witness:
  "tracker_inv two_tracked \<and>
   update two_tracked [(10, 10, 14, 14)] =
     Inr \<lparr>nextObjectID = 3, objectsTracked = [(1, (1, 1)), (2, (12, 12))],
          disappeared = [(1, 1), (2, 0)], maxDisappeared = 13\<rparr> \<and>
   length [(10::int, 10::int, 14::int, 14::int)] \<le> length (objectsTracked two_tracked) \<and>
   map_of [(1::int, (1::int, 1::int)), (2, (12, 12))] 1 = map_of (objectsTracked two_tracked) 1 \<and>
   map_of (disappeared two_tracked) 1 = Some 0 \<and>
   map_of [(1::int, 1::int), (2, 0)] 1 = Some (0 + 1)"
proof -
  let ?S' = "\<lparr>nextObjectID = 3, objectsTracked = [(1, (1, 1)), (2, (12, 12))],
          disappeared = [(1, 1), (2, 0)], maxDisappeared = 13\<rparr>"
  have i: "tracker_inv two_tracked" by (simp add: tracker_inv_def two_tracked_def)
  have u: "update two_tracked [(10, 10, 14, 14)] = Inr ?S'"
    unfolding two_tracked_def by code_simp
  have b: "1 \<in> set (map fst (objectsTracked two_tracked))" by (simp add: two_tracked_def)
  have a: "1 \<in> set (map fst (objectsTracked ?S'))" by simp
  show ?thesis
    using i u update_effect_on_survivor [OF i u b a]
    by (simp add: two_tracked_def matched_to_def untouched_def)
qed















text \<open>
  C9. Take any tracker reached from a new one by calls that returned, and any further
  sequence of calls (a call that raises ends the sequence, and the tracker is looked at
  as the raise left it). Then \<open>nextObjectID\<close> has not decreased; every id tracked
  before or after is strictly below the \<open>nextObjectID\<close> of its moment; and an id tracked
  afterwards that was not tracked before is at least the earlier \<open>nextObjectID\<close>, so it
  differs from every id issued up to then, tracked or already deregistered.
\<close>

theorem ids_increase_and_are_not_reissued:
  assumes "run (FaceTracker m) history = Inr s"
    and "tracker_after (run s frames) = s'"
  shows "nextObjectID s \<le> nextObjectID s' \<and>
         (\<forall>k \<in> set (map fst (objectsTracked s)). k < nextObjectID s) \<and>
         (\<forall>k \<in> set (map fst (objectsTracked s')). k < nextObjectID s') \<and>
         (\<forall>k \<in> set (map fst (objectsTracked s')).
            k \<in> set (map fst (objectsTracked s)) \<or> nextObjectID s \<le> k)"
proof -
  have i: "tracker_inv s" by (rule reachable_inv [OF assms(1)])
  have a: "advances s s'" using run_advances [OF i, of frames] assms(2) by simp
  then have "tracker_inv s'" unfolding advances_def by blast
  then show ?thesis
    using a tracker_invD(3) [OF i] tracker_invD(3) [of s'] unfolding advances_def by blast
qed

theorem ids_increase_and_are_not_reissued_witness:
  "run (FaceTracker 13) [[(0, 0, 2, 2), (10, 10, 12, 12)]] = Inr two_tracked \<and>
   tracker_after (run two_tracked [three_detections, []]) =
     \<lparr>nextObjectID = 5,
      objectsTracked = [(1, (1, 1)), (2, (11, 11)), (3, (101, 101)), (4, (201, 201))],
      disappeared = [(1, 1), (2, 1), (3, 1), (4, 1)], maxDisappeared = 13\<rparr> \<and>
   nextObjectID two_tracked \<le> 5 \<and>
   set (map fst (objectsTracked two_tracked)) = {1, 2} \<and>
   nextObjectID two_tracked = 3"
proof -
  let ?S' = "\<lparr>nextObjectID = 5,
      objectsTracked = [(1, (1, 1)), (2, (11, 11)), (3, (101, 101)), (4, (201, 201))],
      disappeared = [(1, 1), (2, 1), (3, 1), (4, 1)], maxDisappeared = 13\<rparr>"
  have h: "run (FaceTracker 13) [[(0, 0, 2, 2), (10, 10, 12, 12)]] = Inr two_tracked"
    unfolding two_tracked_def by code_simp
  have f: "tracker_after (run two_tracked [three_detections, []]) = ?S'"
    unfolding two_tracked_def three_detections_def tracker_after_def by code_simp
  show ?thesis
    using h f ids_increase_and_are_not_reissued [OF h f] by (simp add: two_tracked_def)
qed



end
